theory Spec2Isabelle
  imports Main "HOL-Library.Word"
begin

section \<open>DocWordsSpace: the per-document position table (docwordspace.h)\<close>

text \<open>
  \<^verbatim>\<open>struct position { uint16_t docSeq; exec_term_id_t termID; }\<close>.
  The typedef \<open>exec_term_id_t\<close> lives in runtime.h; the alternative \<open>test\<close> of
  docwordspace.h asserts \<open>sizeof(termID) == sizeof(uint16_t)\<close>, so it is a 16-bit word
  here. \<open>tokenpos_t\<close> indexes the array \<open>positions\<close>; an index is a natural number, and an
  access outside the allocated array (undefined behaviour in the source) is the failure
  \<open>OutOfBounds\<close>.
\<close>

type_synonym exec_term_id_t = "16 word"
type_synonym tokenpos_t = nat

record position =
  docSeq :: "16 word"
  termID :: exec_term_id_t

definition zero_position :: position where
  "zero_position = \<lparr>docSeq = 0, termID = 0\<rparr>"

record DocWordsSpace =
  positions :: "position list"
  maxPos :: "32 word"
  curSeq :: "16 word"

datatype failure = RequireFailed | OutOfBounds

text \<open>
  The constructor. \<open>Trinity::Limits::MaxPosition\<close> and \<open>Trinity::Limits::MaxPhraseSize\<close>
  are constants of common.h and are parameters here. \<open>calloc\<close> returns
  \<open>max + 1 + MaxPhraseSize\<close> zeroed slots, where \<open>max + 1\<close> is computed in \<open>uint32_t\<close>
  (it wraps to 0 at \<open>max = 0xFFFFFFFF\<close>) and the sum with \<open>MaxPhraseSize\<close> in \<open>size_t\<close>;
  \<open>require\<close> aborts the construction when its argument is false.
\<close>

definition DocWordsSpace_new :: "nat \<Rightarrow> nat \<Rightarrow> 32 word \<Rightarrow> failure + DocWordsSpace" where
  "DocWordsSpace_new MaxPosition MaxPhraseSize mx =
     (let d = \<lparr>positions = replicate (unat (mx + 1) + MaxPhraseSize) zero_position,
               maxPos = mx,
               curSeq = 1\<rparr>
      in if mx \<noteq> 0 \<and> unat mx \<le> MaxPosition then Inr d else Inl RequireFailed)"

text \<open>
  \<open>reset\<close>: when \<open>curSeq == UINT16_MAX\<close>, \<open>memset\<close> zeroes the first \<open>maxPos + 1\<close> slots
  (the sum is computed in \<open>uint32_t\<close>) and \<open>curSeq\<close> becomes 1; otherwise \<open>++curSeq\<close>.
\<close>

definition reset :: "DocWordsSpace \<Rightarrow> failure + DocWordsSpace" where
  "reset d =
     (if curSeq d = 65535 then
        (let n = unat (maxPos d + 1) in
         if n \<le> length (positions d)
         then Inr (d\<lparr>positions := replicate n zero_position @ drop n (positions d),
                     curSeq := 1\<rparr>)
         else Inl OutOfBounds)
      else Inr (d\<lparr>curSeq := curSeq d + 1\<rparr>))"

text \<open>\<open>set\<close>: \<^verbatim>\<open>positions[pos] = {curSeq, termID}\<close>.\<close>

definition set_dws :: "DocWordsSpace \<Rightarrow> exec_term_id_t \<Rightarrow> tokenpos_t \<Rightarrow> failure + DocWordsSpace" where
  "set_dws d t pos =
     (if pos < length (positions d)
      then Inr (d\<lparr>positions := (positions d)[pos := \<lparr>docSeq = curSeq d, termID = t\<rparr>]\<rparr>)
      else Inl OutOfBounds)"

text \<open>\<open>test\<close>: \<^verbatim>\<open>positions[pos].docSeq == curSeq && positions[pos].termID == termID\<close>.\<close>

definition test :: "DocWordsSpace \<Rightarrow> exec_term_id_t \<Rightarrow> tokenpos_t \<Rightarrow> failure + bool" where
  "test d t pos =
     (if pos < length (positions d)
      then Inr (docSeq (positions d ! pos) = curSeq d \<and> termID (positions d ! pos) = t)
      else Inl OutOfBounds)"

text \<open>\<open>unset\<close>: \<^verbatim>\<open>positions[pos].docSeq = 0\<close>.\<close>

definition unset :: "DocWordsSpace \<Rightarrow> tokenpos_t \<Rightarrow> failure + DocWordsSpace" where
  "unset d pos =
     (if pos < length (positions d)
      then Inr (d\<lparr>positions := (positions d)[pos := (positions d ! pos)\<lparr>docSeq := 0\<rparr>]\<rparr>)
      else Inl OutOfBounds)"

subsection \<open>Sequences of calls\<close>

datatype call = Set exec_term_id_t tokenpos_t | Unset tokenpos_t | Reset

fun do_call :: "DocWordsSpace \<Rightarrow> call \<Rightarrow> failure + DocWordsSpace" where
  "do_call d (Set t pos) = set_dws d t pos"
| "do_call d (Unset pos) = unset d pos"
| "do_call d Reset = reset d"

fun do_calls :: "DocWordsSpace \<Rightarrow> call list \<Rightarrow> failure + DocWordsSpace" where
  "do_calls d [] = Inr d"
| "do_calls d (c # cs) =
     (case do_call d c of Inl e \<Rightarrow> Inl e | Inr d' \<Rightarrow> do_calls d' cs)"

text \<open>The precondition of the source (\<open>XXX: pos must be > 0\<close>, and within \<open>maxPos\<close>).\<close>

fun in_range :: "32 word \<Rightarrow> call \<Rightarrow> bool" where
  "in_range m (Set t pos) = (0 < pos \<and> pos \<le> unat m)"
| "in_range m (Unset pos) = (0 < pos \<and> pos \<le> unat m)"
| "in_range m Reset = True"

fun sets_pos :: "tokenpos_t \<Rightarrow> call \<Rightarrow> bool" where
  "sets_pos p (Set t pos) = (pos = p)"
| "sets_pos p (Unset pos) = False"
| "sets_pos p Reset = False"

text \<open>
  The state invariant of the class: the array has the allocated size, \<open>maxPos + 1\<close> does
  not wrap, the generation counter is not 0, no slot carries a generation beyond the
  current one, and the slots past \<open>maxPos\<close> are zero.
\<close>

definition well_formed :: "nat \<Rightarrow> DocWordsSpace \<Rightarrow> bool" where
  "well_formed MaxPhraseSize d \<longleftrightarrow>
     length (positions d) = unat (maxPos d) + 1 + MaxPhraseSize \<and>
     maxPos d + 1 \<noteq> 0 \<and>
     curSeq d \<noteq> 0 \<and>
     list_all (\<lambda>s. docSeq s \<le> curSeq d) (positions d) \<and>
     list_all (\<lambda>s. s = zero_position) (drop (unat (maxPos d) + 1) (positions d))"

text \<open>
  The comment in \<open>reset\<close>: if \<open>positions[idx].docSeq != curSeq\<close> then whatever is in
  \<open>positions[idx]\<close> is stale and should be considered unset.
\<close>

definition stale :: "DocWordsSpace \<Rightarrow> tokenpos_t \<Rightarrow> bool" where
  "stale d pos \<longleftrightarrow> pos < length (positions d) \<and> docSeq (positions d ! pos) \<noteq> curSeq d"

text \<open>
  The reachable states: \<open>d\<close> is what the calls \<open>cs\<close>, each within the precondition, make
  of a space constructed with \<open>mx\<close>.
\<close>

definition reachable :: "nat \<Rightarrow> nat \<Rightarrow> 32 word \<Rightarrow> call list \<Rightarrow> DocWordsSpace \<Rightarrow> bool" where
  "reachable MaxPosition MaxPhraseSize mx cs d \<longleftrightarrow>
     list_all (in_range mx) cs \<and>
     (case DocWordsSpace_new MaxPosition MaxPhraseSize mx of
        Inl e \<Rightarrow> False
      | Inr d0 \<Rightarrow> do_calls d0 cs = Inr d)"

section \<open>Running a query over a collection of sources (exec.h)\<close>

text \<open>
  exec.h declares the single-source \<open>exec_query\<close> and defines it elsewhere, so it is the
  parameter \<open>exec_query_source\<close>: from the query, the source, the masked-documents
  registry, the filter handed in and the optional documents filter (a null pointer is
  \<open>None\<close>) to the filter as the run leaves it. \<open>IndexSourcesCollection\<close> is declared in
  index_source.h; the two members that exec.h uses are the fields of the record.
\<close>

record ('src, 'reg) IndexSourcesCollection =
  sources :: "'src list"
  scanner_registry_for :: "nat \<Rightarrow> 'reg"

type_synonym ('q, 'src, 'reg, 'flt, 'df) single_exec =
  "'q \<Rightarrow> 'src \<Rightarrow> 'reg \<Rightarrow> 'flt \<Rightarrow> 'df option \<Rightarrow> 'flt"

text \<open>
  \<^verbatim>\<open>std::make_unique<T>(std::forward<Arg>(args)...)\<close> constructs a filter from the
  arguments and hands them on as the constructor leaves them: an lvalue or a copied
  value is unchanged, an rvalue that the constructor moves from is left in its
  moved-from state. The parameter \<open>make_filter\<close> returns both the filter and the
  arguments after the construction.
\<close>

type_synonym ('args, 'flt) filter_ctor = "'args \<Rightarrow> 'flt \<times> 'args"

text \<open>The arguments as \<open>k\<close> constructions, one after the other, leave them.\<close>

definition args_after :: "('args, 'flt) filter_ctor \<Rightarrow> nat \<Rightarrow> 'args \<Rightarrow> 'args" where
  "args_after make_filter k args = ((\<lambda>a. snd (make_filter a)) ^^ k) args"

text \<open>
  The body shared by the sequential loop, the \<open>n == 1\<close> branch and the task of
  \<open>std::async\<close>: take source \<open>i\<close> and its registry, make a filter from the arguments as
  they are now, run the query on it. The result is the filter and the arguments as the
  construction left them. Every caller passes an index below \<open>sources.size()\<close>.
\<close>

definition run_source ::
  "('q, 'src, 'reg, 'flt, 'df) single_exec \<Rightarrow> ('args, 'flt) filter_ctor \<Rightarrow> 'q \<Rightarrow>
   ('src, 'reg) IndexSourcesCollection \<Rightarrow> 'df option \<Rightarrow> 'args \<Rightarrow> 32 word \<Rightarrow> 'flt \<times> 'args" where
  "run_source exec_query_source make_filter q collection f args i =
     (let source = sources collection ! unat i;
          scanner = scanner_registry_for collection (unat i);
          (filter, args') = make_filter args
      in (exec_query_source q source scanner filter f, args'))"

text \<open>
  \<^verbatim>\<open>for (uint32_t i{0}; i != n; ++i) { ...; out.push_back(std::move(filter)); }\<close>
  The counter is a 32-bit word and \<open>n\<close> a \<open>size_t\<close>: the loop leaves only when the
  counter meets \<open>n\<close>, so it is a partial function. Each iteration finds the arguments
  as the iteration before left them.
\<close>

partial_function (option) exec_query_loop ::
  "('args \<Rightarrow> 32 word \<Rightarrow> 'flt \<times> 'args) \<Rightarrow> nat \<Rightarrow> 32 word \<Rightarrow> 'flt list \<Rightarrow> 'args \<Rightarrow>
   'flt list option" where
  "exec_query_loop body n i out args =
     (if unat i \<noteq> n
      then exec_query_loop body n (i + 1) (out @ [fst (body args i)]) (snd (body args i))
      else Some out)"

definition exec_query ::
  "('q, 'src, 'reg, 'flt, 'df) single_exec \<Rightarrow> ('args, 'flt) filter_ctor \<Rightarrow> 'q \<Rightarrow>
   ('src, 'reg) IndexSourcesCollection \<Rightarrow> 'df option \<Rightarrow> 'args \<Rightarrow> 'flt list option" where
  "exec_query exec_query_source make_filter q collection f args =
     (let n = length (sources collection) in
      exec_query_loop (run_source exec_query_source make_filter q collection f) n 0 [] args)"

text \<open>
  \<open>exec_query_par\<close>. A \<open>std::future\<close> holds what its task returns. The tasks run side by
  side and share nothing but the constructor arguments, which the lambda captures by
  reference: each task constructs its filter from the arguments as the tasks that
  constructed before it left them. The constructions are taken one at a time, in the
  order \<open>sched\<close>, which lists every task index once and is a parameter of the run.
\<close>

definition args_seen :: "('args, 'flt) filter_ctor \<Rightarrow> nat list \<Rightarrow> 'args \<Rightarrow> nat \<Rightarrow> 'args" where
  "args_seen make_filter sched args k =
     args_after make_filter (length (takeWhile (\<lambda>j. j \<noteq> k) sched)) args"

definition run_task ::
  "('q, 'src, 'reg, 'flt, 'df) single_exec \<Rightarrow> ('args, 'flt) filter_ctor \<Rightarrow> 'q \<Rightarrow>
   ('src, 'reg) IndexSourcesCollection \<Rightarrow> 'df option \<Rightarrow> 'args \<Rightarrow> nat list \<Rightarrow> 32 word \<Rightarrow> 'flt" where
  "run_task exec_query_source make_filter q collection f args sched i =
     fst (run_source exec_query_source make_filter q collection f
            (args_seen make_filter sched args (unat i)) i)"

datatype 'a future = Async 'a

fun future_get :: "'a future \<Rightarrow> 'a" where
  "future_get (Async x) = x"

partial_function (option) spawn_loop ::
  "(32 word \<Rightarrow> 'flt) \<Rightarrow> nat \<Rightarrow> 32 word \<Rightarrow> 'flt future list \<Rightarrow> 'flt future list option" where
  "spawn_loop body n i futures =
     (if unat i \<noteq> n then spawn_loop body n (i + 1) (futures @ [Async (body i)])
      else Some futures)"

text \<open>
  \<^verbatim>\<open>while (futures.size()) { auto &f = futures.back(); out.push_back(std::move(f.get())); futures.pop_back(); }\<close>
\<close>

function collect_loop :: "'flt future list \<Rightarrow> 'flt list \<Rightarrow> 'flt list" where
  "collect_loop futures out =
     (if length futures \<noteq> 0
      then collect_loop (butlast futures) (out @ [future_get (last futures)])
      else out)"
  by pat_completeness auto
termination
  by (relation "measure (\<lambda>(futures, out). length futures)") auto

declare collect_loop.simps [simp del]

text \<open>
  The second component of the result counts the tasks launched with \<open>std::async\<close>.
\<close>

definition exec_query_par ::
  "('q, 'src, 'reg, 'flt, 'df) single_exec \<Rightarrow> ('args, 'flt) filter_ctor \<Rightarrow> 'q \<Rightarrow>
   ('src, 'reg) IndexSourcesCollection \<Rightarrow> 'df option \<Rightarrow> 'args \<Rightarrow> nat list \<Rightarrow>
   ('flt list \<times> nat) option" where
  "exec_query_par exec_query_source make_filter q collection f args sched =
     (let n = length (sources collection) in
      if n = 0 then Some ([], 0)
      else if n = 1
      then Some ([] @ [fst (run_source exec_query_source make_filter q collection f args 0)], 0)
      else (case spawn_loop (run_task exec_query_source make_filter q collection f args sched)
                   n 0 [] of
              None \<Rightarrow> None
            | Some futures \<Rightarrow> Some (collect_loop futures [], length futures)))"

section \<open>The invariant is established and kept\<close>

lemma unat_inc32: "m + 1 \<noteq> (0::32 word) \<Longrightarrow> unat (m + 1) = unat m + 1"
  using unatSuc [of m] by (simp add: add.commute)

lemma inc16_nonzero: "c \<noteq> (65535::16 word) \<Longrightarrow> c + 1 \<noteq> 0"
proof
  assume "c \<noteq> 65535" and "c + 1 = 0"
  then have "c = - 1" by (simp add: eq_neg_iff_add_eq_0)
  with \<open>c \<noteq> 65535\<close> show False by simp
qed

lemma unat_inc16: "c \<noteq> (65535::16 word) \<Longrightarrow> unat (c + 1) = unat c + 1"
  using unatSuc [of c] inc16_nonzero [of c] by (simp add: add.commute)

lemma inc32_nonzero: "unat m < 2 ^ 32 - 1 \<Longrightarrow> m + 1 \<noteq> (0::32 word)"
proof
  assume b: "unat m < 2 ^ 32 - 1" and "m + 1 = 0"
  then have "m = - 1" by (simp add: eq_neg_iff_add_eq_0)
  with b show False by (simp add: unsigned_minus_1_eq_mask mask_eq_exp_minus_1)
qed

lemma le_inc16: "s \<le> c \<Longrightarrow> c \<noteq> (65535::16 word) \<Longrightarrow> s < c + 1"
  by (simp add: word_le_nat_alt word_less_nat_alt unat_inc16)

lemma new_well_formed:
  assumes "MaxPosition < 2 ^ 32 - 1"
    and "DocWordsSpace_new MaxPosition MaxPhraseSize mx = Inr d"
  shows "well_formed MaxPhraseSize d"
proof -
  from assms(2) have ok: "mx \<noteq> 0" "unat mx \<le> MaxPosition"
    and d: "d = \<lparr>positions = replicate (unat (mx + 1) + MaxPhraseSize) zero_position,
               maxPos = mx, curSeq = 1\<rparr>"
    by (auto simp: DocWordsSpace_new_def Let_def split: if_splits)
  from ok(2) assms(1) have "unat mx < 2 ^ 32 - 1" by simp
  then have nz: "mx + 1 \<noteq> 0" by (rule inc32_nonzero)
  then have "unat (mx + 1) = unat mx + 1" by (rule unat_inc32)
  with nz show ?thesis
    by (simp add: d well_formed_def list_all_iff zero_position_def)
qed

lemma set_dws_well_formed:
  assumes "well_formed M d" and "pos \<le> unat (maxPos d)"
  shows "\<exists>d'. set_dws d t pos = Inr d' \<and> well_formed M d' \<and> maxPos d' = maxPos d
             \<and> curSeq d' = curSeq d"
proof -
  let ?v = "\<lparr>docSeq = curSeq d, termID = t\<rparr>"
  let ?d = "d\<lparr>positions := (positions d)[pos := ?v]\<rparr>"
  from assms have len: "pos < length (positions d)" by (simp add: well_formed_def)
  then have 1: "set_dws d t pos = Inr ?d" by (simp add: set_dws_def)
  have "set ((positions d)[pos := ?v]) \<subseteq> insert ?v (set (positions d))"
    by (rule set_update_subset_insert)
  with assms(1) have 2: "list_all (\<lambda>s. docSeq s \<le> curSeq d) ((positions d)[pos := ?v])"
    by (auto simp: well_formed_def list_all_iff)
  from assms have "well_formed M ?d"
    using 2 by (simp add: well_formed_def)
  with 1 show ?thesis by simp
qed

lemma unset_well_formed:
  assumes "well_formed M d" and "pos \<le> unat (maxPos d)"
  shows "\<exists>d'. unset d pos = Inr d' \<and> well_formed M d' \<and> maxPos d' = maxPos d
             \<and> curSeq d' = curSeq d"
proof -
  let ?v = "(positions d ! pos)\<lparr>docSeq := 0\<rparr>"
  let ?d = "d\<lparr>positions := (positions d)[pos := ?v]\<rparr>"
  from assms have len: "pos < length (positions d)" by (simp add: well_formed_def)
  then have 1: "unset d pos = Inr ?d" by (simp add: unset_def)
  have "set ((positions d)[pos := ?v]) \<subseteq> insert ?v (set (positions d))"
    by (rule set_update_subset_insert)
  with assms(1) have 2: "list_all (\<lambda>s. docSeq s \<le> curSeq d) ((positions d)[pos := ?v])"
    by (auto simp: well_formed_def list_all_iff)
  from assms have "well_formed M ?d"
    using 2 by (simp add: well_formed_def)
  with 1 show ?thesis by simp
qed

lemma reset_well_formed:
  assumes "well_formed M d"
  shows "\<exists>d'. reset d = Inr d' \<and> well_formed M d' \<and> maxPos d' = maxPos d"
proof (cases "curSeq d = 65535")
  case True
  let ?n = "unat (maxPos d + 1)"
  let ?d = "d\<lparr>positions := replicate ?n zero_position @ drop ?n (positions d), curSeq := 1\<rparr>"
  from assms have n: "?n = unat (maxPos d) + 1" by (simp add: well_formed_def unat_inc32)
  with assms have le: "?n \<le> length (positions d)" by (simp add: well_formed_def)
  with True have 1: "reset d = Inr ?d" by (simp add: reset_def Let_def)
  from assms have g: "list_all (\<lambda>s. s = zero_position) (drop ?n (positions d))"
    by (simp add: well_formed_def n)
  then have "list_all (\<lambda>s. docSeq s \<le> 1) (drop ?n (positions d))"
    by (auto simp: list_all_iff zero_position_def)
  with assms le g have "well_formed M ?d"
    by (auto simp: well_formed_def n zero_position_def list_all_iff)
  with 1 show ?thesis by simp
next
  case False
  let ?d = "d\<lparr>curSeq := curSeq d + 1\<rparr>"
  from False have 1: "reset d = Inr ?d" by (simp add: reset_def)
  from assms False have "list_all (\<lambda>s. docSeq s \<le> curSeq d + 1) (positions d)"
    by (auto simp: well_formed_def list_all_iff dest!: le_inc16)
  with assms False have "well_formed M ?d"
    by (simp add: well_formed_def inc16_nonzero)
  with 1 show ?thesis by simp
qed

lemma do_call_well_formed:
  assumes "well_formed M d" and "in_range (maxPos d) c"
  shows "\<exists>d'. do_call d c = Inr d' \<and> well_formed M d' \<and> maxPos d' = maxPos d"
proof (cases c)
  case (Set t pos)
  with assms set_dws_well_formed [of M d pos t] show ?thesis by auto
next
  case (Unset pos)
  with assms unset_well_formed [of M d pos] show ?thesis by auto
next
  case Reset
  with assms reset_well_formed [of M d] show ?thesis by auto
qed

lemma do_calls_well_formed:
  assumes "well_formed M d" and "list_all (in_range (maxPos d)) cs"
  shows "\<exists>d'. do_calls d cs = Inr d' \<and> well_formed M d' \<and> maxPos d' = maxPos d"
  using assms
proof (induction cs arbitrary: d)
  case Nil
  then show ?case by simp
next
  case (Cons c cs)
  then obtain d1 where 1: "do_call d c = Inr d1" "well_formed M d1" "maxPos d1 = maxPos d"
    using do_call_well_formed [of M d c] by auto
  with Cons.prems have "list_all (in_range (maxPos d1)) cs" by simp
  from Cons.IH [OF 1(2) this] 1 show ?case by auto
qed

lemma reachable_well_formed:
  assumes "MaxPosition < 2 ^ 32 - 1" and "reachable MaxPosition M mx cs d"
  shows "well_formed M d \<and> maxPos d = mx"
proof -
  from assms(2) obtain d0 where new: "DocWordsSpace_new MaxPosition M mx = Inr d0"
    and run: "do_calls d0 cs = Inr d" and ok: "list_all (in_range mx) cs"
    by (auto simp: reachable_def split: sum.splits)
  from new have m0: "maxPos d0 = mx"
    by (auto simp: DocWordsSpace_new_def Let_def split: if_splits)
  have wf0: "well_formed M d0" using assms(1) new by (rule new_well_formed)
  from ok m0 have "list_all (in_range (maxPos d0)) cs" by simp
  from do_calls_well_formed [OF wf0 this] m0 run show ?thesis by auto
qed

lemma test_stale: "stale d p \<Longrightarrow> test d T p = Inr False"
  by (simp add: stale_def test_def)

lemma reset_all_stale:
  assumes "well_formed M d" and "reset d = Inr d'" and "p < length (positions d)"
  shows "stale d' p"
proof (cases "curSeq d = 65535")
  case True
  let ?n = "unat (maxPos d + 1)"
  from assms(1) have n: "?n = unat (maxPos d) + 1" by (simp add: well_formed_def unat_inc32)
  with assms(1) have le: "?n \<le> length (positions d)" by (simp add: well_formed_def)
  with True assms(2)
  have d': "d' = d\<lparr>positions := replicate ?n zero_position @ drop ?n (positions d), curSeq := 1\<rparr>"
    by (simp add: reset_def Let_def)
  from assms(1) have g: "\<forall>s \<in> set (drop ?n (positions d)). s = zero_position"
    by (simp add: well_formed_def n list_all_iff)
  have "\<forall>s \<in> set (positions d'). s = zero_position"
    using g by (auto simp: d')
  moreover have "p < length (positions d')" using assms(3) le by (simp add: d')
  ultimately have "positions d' ! p = zero_position" by (meson nth_mem)
  then show ?thesis using \<open>p < length (positions d')\<close>
    by (simp add: stale_def d' zero_position_def)
next
  case False
  with assms(2) have d': "d' = d\<lparr>curSeq := curSeq d + 1\<rparr>" by (simp add: reset_def)
  from assms(1,3) have "docSeq (positions d ! p) \<le> curSeq d"
    by (simp add: well_formed_def list_all_length)
  then have "docSeq (positions d ! p) < curSeq d + 1" using False by (rule le_inc16)
  then show ?thesis using assms(3) by (auto simp: stale_def d')
qed

lemma do_call_keeps_stale:
  assumes "well_formed M d" and "stale d p" and "\<not> sets_pos p c" and "do_call d c = Inr d'"
  shows "stale d' p"
proof (cases c)
  case (Set t pos)
  with assms show ?thesis
    by (auto simp: stale_def set_dws_def split: if_splits)
next
  case (Unset pos)
  with assms show ?thesis
    by (cases "pos = p") (auto simp: stale_def unset_def well_formed_def split: if_splits)
next
  case Reset
  with assms reset_all_stale [of M d d' p] show ?thesis by (simp add: stale_def)
qed

lemma do_calls_keep_stale:
  assumes "well_formed M d" and "stale d p" and "list_all (in_range (maxPos d)) cs"
    and "\<not> list_ex (sets_pos p) cs"
  shows "\<exists>d'. do_calls d cs = Inr d' \<and> stale d' p"
  using assms
proof (induction cs arbitrary: d)
  case Nil
  then show ?case by simp
next
  case (Cons c cs)
  then obtain d1 where 1: "do_call d c = Inr d1" "well_formed M d1" "maxPos d1 = maxPos d"
    using do_call_well_formed [of M d c] by auto
  from Cons.prems 1 have 2: "stale d1 p"
    using do_call_keeps_stale [of M d p c d1] by simp
  from Cons.prems 1 have "list_all (in_range (maxPos d1)) cs" "\<not> list_ex (sets_pos p) cs"
    by simp_all
  from Cons.IH [OF 1(2) 2 this] 1 show ?case by simp
qed

lemma well_formed_guard:
  assumes "well_formed M d" and "unat (maxPos d) < g" and "g \<le> unat (maxPos d) + M"
  shows "g < length (positions d) \<and> positions d ! g = zero_position \<and> stale d g"
proof -
  let ?n = "unat (maxPos d) + 1"
  from assms have len: "g < length (positions d)" by (simp add: well_formed_def)
  from assms(1) have "\<forall>i < length (drop ?n (positions d)). drop ?n (positions d) ! i = zero_position"
    by (simp add: well_formed_def list_all_length)
  moreover from assms(2) len have "g - ?n < length (drop ?n (positions d))" by simp
  ultimately have "drop ?n (positions d) ! (g - ?n) = zero_position" by blast
  moreover from assms(2) len have "drop ?n (positions d) ! (g - ?n) = positions d ! g" by simp
  ultimately have z: "positions d ! g = zero_position" by simp
  from assms(1) have "curSeq d \<noteq> 0" by (simp add: well_formed_def)
  with z len show ?thesis by (auto simp: stale_def zero_position_def)
qed

lemma unat_curSeq_bounds:
  assumes "well_formed M d"
  shows "1 \<le> unat (curSeq d) \<and> unat (curSeq d) \<le> 65535"
proof -
  from assms have "curSeq d \<noteq> 0" by (simp add: well_formed_def)
  then have "0 < unat (curSeq d)" by (simp add: unat_gt_0)
  moreover have "unat (curSeq d) < 2 ^ 16" using unsigned_less [of "curSeq d"] by simp
  ultimately show ?thesis by simp
qed

lemma unat_curSeq_reset:
  assumes "reset d = Inr d1"
  shows "unat (curSeq d1) = (if unat (curSeq d) = 65535 then 1 else unat (curSeq d) + 1)"
proof (cases "curSeq d = 65535")
  case True
  with assms show ?thesis by (auto simp: reset_def Let_def split: if_splits)
next
  case False
  have "unat (curSeq d) \<noteq> 65535"
  proof
    assume u: "unat (curSeq d) = 65535"
    have "curSeq d = of_nat (unat (curSeq d))" by simp
    also have "\<dots> = 65535" by (simp only: u) simp
    finally show False using False by simp
  qed
  with False assms show ?thesis by (auto simp: reset_def unat_inc16)
qed

lemma resets_in_range: "list_all (in_range m) (replicate k Reset) \<and> \<not> list_ex (sets_pos p) (replicate k Reset)"
  by (induction k) simp_all

lemma do_calls_resets:
  assumes "well_formed M d"
  shows "\<exists>d'. do_calls d (replicate k Reset) = Inr d' \<and> well_formed M d' \<and>
              maxPos d' = maxPos d \<and> length (positions d') = length (positions d) \<and>
              unat (curSeq d') = (unat (curSeq d) - 1 + k) mod 65535 + 1"
  using assms
proof (induction k arbitrary: d)
  case 0
  from unat_curSeq_bounds [OF 0] have "unat (curSeq d) - 1 < 65535" by arith
  then have "(unat (curSeq d) - 1) mod 65535 = unat (curSeq d) - 1" by (rule mod_less)
  with unat_curSeq_bounds [OF 0] show ?case using 0 by simp
next
  case (Suc k)
  from reset_well_formed [OF Suc.prems] obtain d1 where
    r: "reset d = Inr d1" and wf1: "well_formed M d1" and m1: "maxPos d1 = maxPos d" by blast
  from Suc.IH [OF wf1] obtain d' where
    d': "do_calls d1 (replicate k Reset) = Inr d'" "well_formed M d'" "maxPos d' = maxPos d1"
        "length (positions d') = length (positions d1)"
        "unat (curSeq d') = (unat (curSeq d1) - 1 + k) mod 65535 + 1" by blast
  from Suc.prems wf1 m1 have len: "length (positions d1) = length (positions d)"
    by (simp add: well_formed_def)
  from unat_curSeq_bounds [OF Suc.prems] unat_curSeq_reset [OF r]
  have "(unat (curSeq d1) - 1 + k) mod 65535 = (unat (curSeq d) - 1 + Suc k) mod 65535"
    by (cases "unat (curSeq d) = 65535") (simp_all add: Suc_diff_le)
  with d' r m1 len show ?case by simp
qed

lemma do_calls_resets_stale:
  assumes "well_formed M d" and "p < length (positions d)"
  shows "\<exists>d'. do_calls d (replicate (Suc k) Reset) = Inr d' \<and> stale d' p"
proof -
  from reset_well_formed [OF assms(1)] obtain d1 where
    r: "reset d = Inr d1" and wf1: "well_formed M d1" by blast
  from reset_all_stale [OF assms(1) r assms(2)] have st: "stale d1 p" .
  from do_calls_keep_stale [OF wf1 st] resets_in_range [of "maxPos d1" k p]
  obtain d' where "do_calls d1 (replicate k Reset) = Inr d'" "stale d' p" by blast
  with r show ?thesis by simp
qed

lemma set_dws_roundtrip:
  assumes "p < length (positions d)"
  shows "\<exists>d'. set_dws d T p = Inr d' \<and> test d' T p = Inr True \<and>
              (\<forall>T'. T' \<noteq> T \<longrightarrow> test d' T' p = Inr False)"
  using assms by (auto simp: set_dws_def test_def)

section \<open>Construction\<close>

text \<open>
  C5. Construction fails when \<open>max\<close> is 0 or exceeds \<open>MaxPosition\<close>; otherwise (with
  \<open>MaxPosition\<close> below the largest \<open>uint32_t\<close>, so that \<open>max + 1\<close> does not wrap) it yields
  \<open>max + 1 + MaxPhraseSize\<close> slots, every one of them zero (so every position tests as
  unset), with the generation counter at 1.
\<close>

theorem DocWordsSpace_new_result:
  "(mx = 0 \<or> MaxPosition < unat mx \<longrightarrow>
      DocWordsSpace_new MaxPosition MaxPhraseSize mx = Inl RequireFailed) \<and>
   (mx \<noteq> 0 \<and> unat mx \<le> MaxPosition \<and> MaxPosition < 2 ^ 32 - 1 \<longrightarrow>
      (\<exists>d. DocWordsSpace_new MaxPosition MaxPhraseSize mx = Inr d \<and>
           length (positions d) = unat mx + 1 + MaxPhraseSize \<and>
           (\<forall>s \<in> set (positions d). docSeq s = 0 \<and> termID s = 0) \<and>
           (\<forall>T p. p < length (positions d) \<longrightarrow> test d T p = Inr False) \<and>
           maxPos d = mx \<and> curSeq d = 1))"
proof (intro conjI impI)
  assume "mx = 0 \<or> MaxPosition < unat mx"
  then show "DocWordsSpace_new MaxPosition MaxPhraseSize mx = Inl RequireFailed"
    by (auto simp: DocWordsSpace_new_def Let_def)
next
  assume ok: "mx \<noteq> 0 \<and> unat mx \<le> MaxPosition \<and> MaxPosition < 2 ^ 32 - 1"
  let ?d = "\<lparr>positions = replicate (unat (mx + 1) + MaxPhraseSize) zero_position,
             maxPos = mx, curSeq = 1\<rparr>"
  from ok have "unat mx < 2 ^ 32 - 1" by simp
  then have "mx + 1 \<noteq> 0" by (rule inc32_nonzero)
  then have u: "unat (mx + 1) = unat mx + 1" by (rule unat_inc32)
  from ok have new: "DocWordsSpace_new MaxPosition MaxPhraseSize mx = Inr ?d"
    by (simp add: DocWordsSpace_new_def Let_def)
  have len: "length (positions ?d) = unat mx + 1 + MaxPhraseSize" by (simp add: u)
  have zero: "\<forall>s \<in> set (positions ?d). docSeq s = 0 \<and> termID s = 0"
    by (simp add: zero_position_def)
  have "test ?d T p = Inr False" if "p < length (positions ?d)" for T p
  proof -
    from that have "positions ?d ! p = zero_position" by simp
    with that show ?thesis by (simp add: test_def zero_position_def)
  qed
  with new len zero
  show "\<exists>d. DocWordsSpace_new MaxPosition MaxPhraseSize mx = Inr d \<and>
           length (positions d) = unat mx + 1 + MaxPhraseSize \<and>
           (\<forall>s \<in> set (positions d). docSeq s = 0 \<and> termID s = 0) \<and>
           (\<forall>T p. p < length (positions d) \<longrightarrow> test d T p = Inr False) \<and>
           maxPos d = mx \<and> curSeq d = 1"
    by (intro exI [of _ ?d]) simp
qed

theorem DocWordsSpace_new_result_witness:
  "DocWordsSpace_new 8192 16 0 = Inl RequireFailed \<and>
   DocWordsSpace_new 8192 16 9000 = Inl RequireFailed \<and>
   (\<exists>d. DocWordsSpace_new 8192 16 3 = Inr d \<and>
        length (positions d) = 20 \<and>
        (\<forall>s \<in> set (positions d). docSeq s = 0 \<and> termID s = 0) \<and>
        (\<forall>T p. p < length (positions d) \<longrightarrow> test d T p = Inr False) \<and>
        maxPos d = 3 \<and> curSeq d = 1)"
  using DocWordsSpace_new_result [of 0 8192 16]
        DocWordsSpace_new_result [of 9000 8192 16]
        DocWordsSpace_new_result [of 3 8192 16]
  by simp

section \<open>set, test, unset and reset\<close>

text \<open>
  C2. Round trip: for a position \<open>p\<close> with \<open>0 < p \<le> maxPos\<close>, right after \<open>set(T, p)\<close> the
  call \<open>test(T, p)\<close> returns true and \<open>test(T', p)\<close> returns false for every other term.
\<close>

theorem set_then_test:
  assumes "well_formed MaxPhraseSize d" and "0 < p" and "p \<le> unat (maxPos d)"
  shows "\<exists>d'. set_dws d T p = Inr d' \<and> test d' T p = Inr True \<and>
              (\<forall>T'. T' \<noteq> T \<longrightarrow> test d' T' p = Inr False)"
proof -
  from assms have "p < length (positions d)" by (simp add: well_formed_def)
  then show ?thesis by (auto simp: set_dws_def test_def)
qed

theorem set_then_test_witness:
  "well_formed 2 \<lparr>positions = [zero_position, \<lparr>docSeq = 4, termID = 9\<rparr>, \<lparr>docSeq = 5, termID = 8\<rparr>,
                     zero_position, zero_position, zero_position],
                  maxPos = 3, curSeq = 5\<rparr> \<and>
   (\<exists>d'. set_dws \<lparr>positions = [zero_position, \<lparr>docSeq = 4, termID = 9\<rparr>, \<lparr>docSeq = 5, termID = 8\<rparr>,
                     zero_position, zero_position, zero_position],
                  maxPos = 3, curSeq = 5\<rparr> 7 2 = Inr d' \<and>
         test d' 7 2 = Inr True \<and> test d' 8 2 = Inr False)"
proof -
  let ?d = "\<lparr>positions = [zero_position, \<lparr>docSeq = 4, termID = 9\<rparr>, \<lparr>docSeq = 5, termID = 8\<rparr>,
                     zero_position, zero_position, zero_position],
                  maxPos = 3, curSeq = 5\<rparr>"
  have wf: "well_formed 2 ?d" by (simp add: well_formed_def zero_position_def)
  have "(0::nat) < 2" and "2 \<le> unat (maxPos ?d)" by simp_all
  from set_then_test [OF wf this, of 7] wf show ?thesis by fastforce
qed

text \<open>
  C6. \<open>unset(p)\<close> for \<open>0 < p \<le> maxPos\<close>: every \<open>test(T, p)\<close> is false afterwards, and stays
  false through any further calls that do not set \<open>p\<close> again; the call writes 0 into the
  generation field of slot \<open>p\<close> and nothing else (the stored term, the other slots, the
  counter), so \<open>test\<close> at every other position answers as before.
\<close>

theorem unset_effect:
  assumes "well_formed MaxPhraseSize d" and "0 < p" and "p \<le> unat (maxPos d)"
  shows "\<exists>d'. unset d p = Inr d' \<and>
           (\<forall>T. test d' T p = Inr False) \<and>
           (\<forall>cs. list_all (in_range (maxPos d)) cs \<and> \<not> list_ex (sets_pos p) cs \<longrightarrow>
                 (\<exists>d''. do_calls d' cs = Inr d'' \<and> (\<forall>T. test d'' T p = Inr False))) \<and>
           docSeq (positions d' ! p) = 0 \<and>
           termID (positions d' ! p) = termID (positions d ! p) \<and>
           length (positions d') = length (positions d) \<and>
           (\<forall>p'. p' \<noteq> p \<longrightarrow> positions d' ! p' = positions d ! p') \<and>
           maxPos d' = maxPos d \<and> curSeq d' = curSeq d \<and>
           (\<forall>T' p'. p' \<noteq> p \<longrightarrow> test d' T' p' = test d T' p')"
proof -
  let ?d = "d\<lparr>positions := (positions d)[p := (positions d ! p)\<lparr>docSeq := 0\<rparr>]\<rparr>"
  from assms have len: "p < length (positions d)" by (simp add: well_formed_def)
  then have u: "unset d p = Inr ?d" by (simp add: unset_def)
  from unset_well_formed [OF assms(1,3)] u have wf: "well_formed MaxPhraseSize ?d" by simp
  from assms(1) have "curSeq d \<noteq> 0" by (simp add: well_formed_def)
  with len have st: "stale ?d p" by (auto simp: stale_def)
  have later: "\<exists>d''. do_calls ?d cs = Inr d'' \<and> (\<forall>T. test d'' T p = Inr False)"
    if "list_all (in_range (maxPos d)) cs" and "\<not> list_ex (sets_pos p) cs" for cs
  proof -
    from that have "list_all (in_range (maxPos ?d)) cs" by simp
    from do_calls_keep_stale [OF wf st this that(2)] show ?thesis
      by (auto simp: test_stale)
  qed
  have frame: "test ?d T' p' = test d T' p'" if "p' \<noteq> p" for T' p'
    using that by (simp add: test_def)
  from u st len later frame show ?thesis
    by (simp add: test_stale)
qed

theorem unset_effect_witness:
  "well_formed 2 \<lparr>positions = [zero_position, \<lparr>docSeq = 5, termID = 9\<rparr>, \<lparr>docSeq = 5, termID = 8\<rparr>,
                     zero_position, zero_position, zero_position],
                  maxPos = 3, curSeq = 5\<rparr> \<and>
   test \<lparr>positions = [zero_position, \<lparr>docSeq = 5, termID = 9\<rparr>, \<lparr>docSeq = 5, termID = 8\<rparr>,
                     zero_position, zero_position, zero_position],
                  maxPos = 3, curSeq = 5\<rparr> 8 2 = Inr True \<and>
   (\<exists>d'. unset \<lparr>positions = [zero_position, \<lparr>docSeq = 5, termID = 9\<rparr>, \<lparr>docSeq = 5, termID = 8\<rparr>,
                     zero_position, zero_position, zero_position],
                  maxPos = 3, curSeq = 5\<rparr> 2 = Inr d' \<and>
         test d' 8 2 = Inr False \<and>
         (\<exists>d''. do_calls d' [Set 8 3, Unset 1, Reset] = Inr d'' \<and> test d'' 8 2 = Inr False) \<and>
         termID (positions d' ! 2) = 8 \<and>
         test d' 9 1 = Inr True)"
proof -
  let ?d = "\<lparr>positions = [zero_position, \<lparr>docSeq = 5, termID = 9\<rparr>, \<lparr>docSeq = 5, termID = 8\<rparr>,
                     zero_position, zero_position, zero_position],
                  maxPos = 3, curSeq = 5\<rparr>"
  have wf: "well_formed 2 ?d" by (simp add: well_formed_def zero_position_def)
  have p: "(0::nat) < 2" "2 \<le> unat (maxPos ?d)" by simp_all
  have t: "test ?d 8 2 = Inr True" "test ?d 9 1 = Inr True" "termID (positions ?d ! 2) = 8"
    by (simp_all add: test_def)
  have cs: "list_all (in_range (maxPos ?d)) [Set 8 3, Unset 1, Reset]
            \<and> \<not> list_ex (sets_pos 2) [Set 8 3, Unset 1, Reset]" by simp
  from unset_effect [OF wf p] obtain d' where d': "unset ?d 2 = Inr d'"
    "\<forall>T. test d' T 2 = Inr False"
    "\<forall>cs. list_all (in_range (maxPos ?d)) cs \<and> \<not> list_ex (sets_pos 2) cs \<longrightarrow>
                 (\<exists>d''. do_calls d' cs = Inr d'' \<and> (\<forall>T. test d'' T 2 = Inr False))"
    "termID (positions d' ! 2) = termID (positions ?d ! 2)"
    "\<forall>T' p'. p' \<noteq> 2 \<longrightarrow> test d' T' p' = test ?d T' p'"
    by blast
  from d'(3) cs obtain d'' where "do_calls d' [Set 8 3, Unset 1, Reset] = Inr d''"
     "\<forall>T. test d'' T 2 = Inr False" by blast
  moreover from d'(5) t(2) have "test d' 9 1 = Inr True" by simp
  ultimately show ?thesis using wf t d'(1,2,4) by auto
qed

text \<open>
  C3. In a reachable state, \<open>reset()\<close> makes \<open>test(T, p)\<close> false for every term and every
  position \<open>0 < p \<le> maxPos\<close>, whatever was set there before, and it stays false through
  any further calls until \<open>p\<close> is set again. In a reachable state a slot whose stored
  generation differs from the current one tests false for every term.
\<close>

theorem reset_clears_all:
  assumes "MaxPosition < 2 ^ 32 - 1"
    and "reachable MaxPosition MaxPhraseSize mx cs d"
    and "0 < p" and "p \<le> unat mx"
  shows "(\<exists>d1. reset d = Inr d1 \<and>
            (\<forall>T. test d1 T p = Inr False) \<and>
            (\<forall>after. list_all (in_range mx) after \<and> \<not> list_ex (sets_pos p) after \<longrightarrow>
                 (\<exists>d2. do_calls d1 after = Inr d2 \<and> (\<forall>T. test d2 T p = Inr False)))) \<and>
         (\<forall>T q. q \<le> unat mx + MaxPhraseSize \<and> docSeq (positions d ! q) \<noteq> curSeq d \<longrightarrow>
                test d T q = Inr False)"
proof -
  from reachable_well_formed [OF assms(1,2)]
  have wf: "well_formed MaxPhraseSize d" and m: "maxPos d = mx" by simp_all
  from reset_well_formed [OF wf] obtain d1 where
    r: "reset d = Inr d1" and wf1: "well_formed MaxPhraseSize d1" and m1: "maxPos d1 = maxPos d"
    by blast
  from wf m assms(4) have len: "p < length (positions d)" by (simp add: well_formed_def)
  from reset_all_stale [OF wf r len] have st: "stale d1 p" .
  have later: "\<exists>d2. do_calls d1 after = Inr d2 \<and> (\<forall>T. test d2 T p = Inr False)"
    if "list_all (in_range mx) after" and "\<not> list_ex (sets_pos p) after" for after
  proof -
    from that m m1 have "list_all (in_range (maxPos d1)) after" by simp
    from do_calls_keep_stale [OF wf1 st this that(2)] show ?thesis
      by (auto simp: test_stale)
  qed
  have empty: "test d T q = Inr False"
    if "q \<le> unat mx + MaxPhraseSize" and "docSeq (positions d ! q) \<noteq> curSeq d" for T q
  proof -
    from wf m that(1) have "q < length (positions d)" by (simp add: well_formed_def)
    with that(2) show ?thesis by (simp add: test_def)
  qed
  from r st later empty show ?thesis by (simp add: test_stale)
qed

theorem reset_clears_all_witness:
  "(8192::nat) < 2 ^ 32 - 1 \<and>
   reachable 8192 2 3 [Set 8 2, Reset, Set 9 1]
     \<lparr>positions = [zero_position, \<lparr>docSeq = 2, termID = 9\<rparr>, \<lparr>docSeq = 1, termID = 8\<rparr>,
                   zero_position, zero_position, zero_position],
      maxPos = 3, curSeq = 2\<rparr> \<and>
   test \<lparr>positions = [zero_position, \<lparr>docSeq = 2, termID = 9\<rparr>, \<lparr>docSeq = 1, termID = 8\<rparr>,
                   zero_position, zero_position, zero_position],
      maxPos = 3, curSeq = 2\<rparr> 9 1 = Inr True \<and>
   (\<exists>d1. reset \<lparr>positions = [zero_position, \<lparr>docSeq = 2, termID = 9\<rparr>, \<lparr>docSeq = 1, termID = 8\<rparr>,
                   zero_position, zero_position, zero_position],
      maxPos = 3, curSeq = 2\<rparr> = Inr d1 \<and>
         test d1 9 1 = Inr False \<and>
         (\<exists>d2. do_calls d1 [Set 9 2, Unset 1, Reset, Set 9 3] = Inr d2 \<and> test d2 9 1 = Inr False)) \<and>
   test \<lparr>positions = [zero_position, \<lparr>docSeq = 2, termID = 9\<rparr>, \<lparr>docSeq = 1, termID = 8\<rparr>,
                   zero_position, zero_position, zero_position],
      maxPos = 3, curSeq = 2\<rparr> 8 2 = Inr False"
proof -
  let ?d = "\<lparr>positions = [zero_position, \<lparr>docSeq = 2, termID = 9\<rparr>, \<lparr>docSeq = 1, termID = 8\<rparr>,
                   zero_position, zero_position, zero_position],
      maxPos = 3, curSeq = 2\<rparr>"
  let ?after = "[Set 9 2, Unset 1, Reset, Set 9 3]"
  have b: "(8192::nat) < 2 ^ 32 - 1" by simp
  have r: "reachable 8192 2 3 [Set 8 2, Reset, Set 9 1] ?d"
    by code_simp
  have p: "(0::nat) < 1" "1 \<le> unat (3::32 word)" by simp_all
  have t: "test ?d 9 1 = Inr True" by (simp add: test_def)
  have a: "list_all (in_range 3) ?after \<and> \<not> list_ex (sets_pos 1) ?after" by simp
  have q: "(2::nat) \<le> unat (3::32 word) + 2 \<and> docSeq (positions ?d ! 2) \<noteq> curSeq ?d" by simp
  note inst = reset_clears_all [OF b r p]
  from inst obtain d1 where d1: "reset ?d = Inr d1" "\<forall>T. test d1 T 1 = Inr False"
    "\<forall>after. list_all (in_range 3) after \<and> \<not> list_ex (sets_pos 1) after \<longrightarrow>
                 (\<exists>d2. do_calls d1 after = Inr d2 \<and> (\<forall>T. test d2 T 1 = Inr False))"
    by blast
  from d1(3) a obtain d2 where "do_calls d1 ?after = Inr d2" "\<forall>T. test d2 T 1 = Inr False"
    by blast
  moreover from inst q have "test ?d 8 2 = Inr False" by blast
  ultimately show ?thesis using b r t d1(1,2) by blast
qed

text \<open>
  C7. The guard slots \<open>maxPos + 1 .. maxPos + MaxPhraseSize\<close> are zero after construction
  and after any sequence of \<open>set\<close>, \<open>unset\<close> and \<open>reset\<close> calls within the precondition:
  they lie inside the array, hold the zero slot and test false for every term; a further
  \<open>reset()\<close> leaves them as they are.
\<close>

theorem guard_slots_zero:
  assumes "MaxPosition < 2 ^ 32 - 1"
    and "reachable MaxPosition MaxPhraseSize mx cs d"
    and "unat mx < g" and "g \<le> unat mx + MaxPhraseSize"
  shows "g < length (positions d) \<and> positions d ! g = zero_position \<and>
         (\<forall>T. test d T g = Inr False) \<and>
         (\<exists>d'. reset d = Inr d' \<and> positions d' ! g = positions d ! g)"
proof -
  from reachable_well_formed [OF assms(1,2)]
  have wf: "well_formed MaxPhraseSize d" and m: "maxPos d = mx" by simp_all
  from well_formed_guard [OF wf] assms(3,4) m
  have g: "g < length (positions d)" "positions d ! g = zero_position" "stale d g" by simp_all
  from reset_well_formed [OF wf] obtain d' where
    r: "reset d = Inr d'" and wf': "well_formed MaxPhraseSize d'" and m': "maxPos d' = maxPos d"
    by blast
  from well_formed_guard [OF wf'] assms(3,4) m m'
  have "positions d' ! g = zero_position" by simp
  with g r show ?thesis by (simp add: test_stale)
qed

theorem guard_slots_zero_witness:
  "(8192::nat) < 2 ^ 32 - 1 \<and>
   reachable 8192 2 3 [Set 8 3, Reset, Unset 3, Set 9 3]
     \<lparr>positions = [zero_position, zero_position, zero_position, \<lparr>docSeq = 2, termID = 9\<rparr>,
                   zero_position, zero_position],
      maxPos = 3, curSeq = 2\<rparr> \<and>
   unat (3::32 word) < 4 \<and> (4::nat) \<le> unat (3::32 word) + 2 \<and>
   positions \<lparr>positions = [zero_position, zero_position, zero_position, \<lparr>docSeq = 2, termID = 9\<rparr>,
                   zero_position, zero_position],
      maxPos = 3, curSeq = 2\<rparr> ! 4 = zero_position \<and>
   test \<lparr>positions = [zero_position, zero_position, zero_position, \<lparr>docSeq = 2, termID = 9\<rparr>,
                   zero_position, zero_position],
      maxPos = 3, curSeq = 2\<rparr> 9 4 = Inr False"
proof -
  let ?d = "\<lparr>positions = [zero_position, zero_position, zero_position, \<lparr>docSeq = 2, termID = 9\<rparr>,
                   zero_position, zero_position],
      maxPos = 3, curSeq = 2\<rparr>"
  have b: "(8192::nat) < 2 ^ 32 - 1" by simp
  have r: "reachable 8192 2 3 [Set 8 3, Reset, Unset 3, Set 9 3] ?d"
    by code_simp
  have g: "unat (3::32 word) < 4" "(4::nat) \<le> unat (3::32 word) + 2" by simp_all
  from guard_slots_zero [OF b r g] b r g show ?thesis by blast
qed

text \<open>
  C4. \<open>reset()\<close> adds one to the generation counter, except at 65535, where it zeroes
  the first \<open>maxPos + 1\<close> slots, leaves the slots behind them as they are and puts the
  counter back to 1. The counter is never 0 however many resets follow one another;
  among any 65535 of them in a row one meets the counter at 65535, and after all of them
  the counter is where it started, every position tests false, a \<open>set\<close> still round-trips
  and a \<open>reset\<close> still clears it.
\<close>

theorem reset_generations:
  assumes "well_formed MaxPhraseSize d"
  shows "(curSeq d \<noteq> 65535 \<longrightarrow> reset d = Inr (d\<lparr>curSeq := curSeq d + 1\<rparr>)) \<and>
         (curSeq d = 65535 \<longrightarrow>
            reset d = Inr (d\<lparr>positions := replicate (unat (maxPos d) + 1) zero_position @
                                          drop (unat (maxPos d) + 1) (positions d),
                             curSeq := 1\<rparr>)) \<and>
         (\<forall>k. \<exists>dk. do_calls d (replicate k Reset) = Inr dk \<and> curSeq dk \<noteq> 0) \<and>
         (\<exists>k < 65535. \<exists>dk. do_calls d (replicate k Reset) = Inr dk \<and> curSeq dk = 65535) \<and>
         (\<exists>d'. do_calls d (replicate 65535 Reset) = Inr d' \<and>
               curSeq d' = curSeq d \<and> maxPos d' = maxPos d \<and>
               (\<forall>p. 0 < p \<and> p \<le> unat (maxPos d) \<longrightarrow>
                  (\<forall>T. test d' T p = Inr False) \<and>
                  (\<forall>T. \<exists>d''. set_dws d' T p = Inr d'' \<and> test d'' T p = Inr True \<and>
                         (\<forall>T'. T' \<noteq> T \<longrightarrow> test d'' T' p = Inr False) \<and>
                         (\<exists>d3. reset d'' = Inr d3 \<and> (\<forall>T'. test d3 T' p = Inr False)))))"
proof -
  have a: "curSeq d \<noteq> 65535 \<longrightarrow> reset d = Inr (d\<lparr>curSeq := curSeq d + 1\<rparr>)"
    by (simp add: reset_def)
  from assms have n: "unat (maxPos d + 1) = unat (maxPos d) + 1"
    by (simp add: well_formed_def unat_inc32)
  with assms have b: "curSeq d = 65535 \<longrightarrow>
            reset d = Inr (d\<lparr>positions := replicate (unat (maxPos d) + 1) zero_position @
                                          drop (unat (maxPos d) + 1) (positions d),
                             curSeq := 1\<rparr>)"
    by (simp add: reset_def well_formed_def)
  have c: "\<exists>dk. do_calls d (replicate k Reset) = Inr dk \<and> curSeq dk \<noteq> 0" for k
    using do_calls_resets [OF assms, of k] by (auto simp: well_formed_def)
  note u = unat_curSeq_bounds [OF assms]
  have e: "\<exists>k < 65535. \<exists>dk. do_calls d (replicate k Reset) = Inr dk \<and> curSeq dk = 65535"
  proof -
    let ?k = "65535 - unat (curSeq d)"
    from do_calls_resets [OF assms, of ?k] obtain dk where
      dk: "do_calls d (replicate ?k Reset) = Inr dk"
          "unat (curSeq dk) = (unat (curSeq d) - 1 + ?k) mod 65535 + 1" by blast
    from u have "unat (curSeq d) - 1 + ?k = 65534" by simp
    with dk(2) have "unat (curSeq dk) = 65535" by simp
    then have "of_nat (unat (curSeq dk)) = (65535 :: 16 word)" by (simp only:) simp
    then have "curSeq dk = 65535" by simp
    moreover from u have "?k < 65535" by simp
    ultimately show ?thesis using dk(1) by blast
  qed
  from do_calls_resets [OF assms, of 65535] obtain d' where
    d': "do_calls d (replicate 65535 Reset) = Inr d'" "well_formed MaxPhraseSize d'"
        "maxPos d' = maxPos d" "length (positions d') = length (positions d)"
        "unat (curSeq d') = (unat (curSeq d) - 1 + 65535) mod 65535 + 1" by blast
  from u have "unat (curSeq d) - 1 < 65535" by arith
  then have "(unat (curSeq d) - 1) mod 65535 = unat (curSeq d) - 1" by (rule mod_less)
  moreover have "(unat (curSeq d) - 1 + 65535) mod 65535 = (unat (curSeq d) - 1) mod 65535"
    by (rule mod_add_self2)
  ultimately have "unat (curSeq d') = unat (curSeq d) - 1 + 1" using d'(5) by (simp only:)
  with u have "unat (curSeq d') = unat (curSeq d)" by simp
  then have cur: "curSeq d' = curSeq d" by (rule word_unat_eq_iff [THEN iffD2])
  have f: "(\<forall>T. test d' T p = Inr False) \<and>
           (\<forall>T. \<exists>d''. set_dws d' T p = Inr d'' \<and> test d'' T p = Inr True \<and>
                  (\<forall>T'. T' \<noteq> T \<longrightarrow> test d'' T' p = Inr False) \<and>
                  (\<exists>d3. reset d'' = Inr d3 \<and> (\<forall>T'. test d3 T' p = Inr False)))"
    if p: "0 < p \<and> p \<le> unat (maxPos d)" for p
  proof -
    from assms p have len: "p < length (positions d)" by (simp add: well_formed_def)
    have "Suc 65534 = 65535" by simp
    with do_calls_resets_stale [OF assms len, of 65534] obtain dS where
      "do_calls d (replicate 65535 Reset) = Inr dS" "stale dS p" by (auto simp only:)
    with d'(1) have "stale d' p" by simp
    then have 1: "\<forall>T. test d' T p = Inr False" by (simp add: test_stale)
    have 2: "\<exists>d''. set_dws d' T p = Inr d'' \<and> test d'' T p = Inr True \<and>
                  (\<forall>T'. T' \<noteq> T \<longrightarrow> test d'' T' p = Inr False) \<and>
                  (\<exists>d3. reset d'' = Inr d3 \<and> (\<forall>T'. test d3 T' p = Inr False))" for T
    proof -
      from p d'(3) have pm: "p \<le> unat (maxPos d')" by simp
      from len d'(4) have len': "p < length (positions d')" by simp
      from set_dws_well_formed [OF d'(2) pm, of T] obtain d'' where
        s: "set_dws d' T p = Inr d''" and wf'': "well_formed MaxPhraseSize d''" by blast
      from s len' have len'': "p < length (positions d'')"
        by (auto simp: set_dws_def split: if_splits)
      from reset_well_formed [OF wf''] obtain d3 where r: "reset d'' = Inr d3" by blast
      from reset_all_stale [OF wf'' r len''] have "\<forall>T'. test d3 T' p = Inr False"
        by (simp add: test_stale)
      with set_dws_roundtrip [OF len', of T] s r show ?thesis by auto
    qed
    from 1 2 show ?thesis by blast
  qed
  from a b c e d'(1,3) cur f show ?thesis by blast
qed

theorem reset_generations_witness:
  "well_formed 2 \<lparr>positions = [zero_position, \<lparr>docSeq = 65535, termID = 9\<rparr>, \<lparr>docSeq = 7, termID = 8\<rparr>,
                     zero_position, zero_position, zero_position],
                  maxPos = 3, curSeq = 65535\<rparr> \<and>
   test \<lparr>positions = [zero_position, \<lparr>docSeq = 65535, termID = 9\<rparr>, \<lparr>docSeq = 7, termID = 8\<rparr>,
                     zero_position, zero_position, zero_position],
                  maxPos = 3, curSeq = 65535\<rparr> 9 1 = Inr True \<and>
   reset \<lparr>positions = [zero_position, \<lparr>docSeq = 65535, termID = 9\<rparr>, \<lparr>docSeq = 7, termID = 8\<rparr>,
                     zero_position, zero_position, zero_position],
                  maxPos = 3, curSeq = 65535\<rparr> = Inr (\<lparr>positions = [zero_position, \<lparr>docSeq = 65535, termID = 9\<rparr>, \<lparr>docSeq = 7, termID = 8\<rparr>,
                     zero_position, zero_position, zero_position],
                  maxPos = 3, curSeq = 65535\<rparr>\<lparr>positions := replicate 4 zero_position @ [zero_position, zero_position],
                      curSeq := 1\<rparr>) \<and>
   (\<exists>d'. do_calls \<lparr>positions = [zero_position, \<lparr>docSeq = 65535, termID = 9\<rparr>, \<lparr>docSeq = 7, termID = 8\<rparr>,
                     zero_position, zero_position, zero_position],
                  maxPos = 3, curSeq = 65535\<rparr> (replicate 65535 Reset) = Inr d' \<and>
         curSeq d' = 65535 \<and> test d' 9 1 = Inr False \<and>
         (\<exists>d''. set_dws d' 9 1 = Inr d'' \<and> test d'' 9 1 = Inr True \<and> test d'' 8 1 = Inr False \<and>
                (\<exists>d3. reset d'' = Inr d3 \<and> test d3 9 1 = Inr False)))"
proof -
  let ?d = "\<lparr>positions = [zero_position, \<lparr>docSeq = 65535, termID = 9\<rparr>, \<lparr>docSeq = 7, termID = 8\<rparr>,
                     zero_position, zero_position, zero_position],
                  maxPos = 3, curSeq = 65535\<rparr>"
  have wf: "well_formed 2 ?d" by (simp add: well_formed_def zero_position_def)
  have t: "test ?d 9 1 = Inr True" by (simp add: test_def)
  note inst = reset_generations [OF wf]
  have c: "curSeq ?d = 65535" by simp
  from inst [THEN conjunct2, THEN conjunct1, rule_format, OF c] have "reset ?d =
      Inr (?d\<lparr>positions := replicate (unat (maxPos ?d) + 1) zero_position @
                             drop (unat (maxPos ?d) + 1) (positions ?d),
              curSeq := 1\<rparr>)" .
  then have r: "reset ?d =
      Inr (?d\<lparr>positions := replicate 4 zero_position @ [zero_position, zero_position],
              curSeq := 1\<rparr>)" by simp
  have p: "(0::nat) < 1 \<and> 1 \<le> unat (maxPos ?d)" by simp
  from inst [THEN conjunct2, THEN conjunct2, THEN conjunct2, THEN conjunct2]
  obtain d' where d': "do_calls ?d (replicate 65535 Reset) = Inr d'"
    "curSeq d' = curSeq ?d"
    "\<forall>p. 0 < p \<and> p \<le> unat (maxPos ?d) \<longrightarrow>
        (\<forall>T. test d' T p = Inr False) \<and>
        (\<forall>T. \<exists>d''. set_dws d' T p = Inr d'' \<and> test d'' T p = Inr True \<and>
               (\<forall>T'. T' \<noteq> T \<longrightarrow> test d'' T' p = Inr False) \<and>
               (\<exists>d3. reset d'' = Inr d3 \<and> (\<forall>T'. test d3 T' p = Inr False)))"
    by (elim exE conjE)
  note q = d'(3) [THEN spec, THEN mp, OF p]
  from q [THEN conjunct1, THEN spec, of 9] have 1: "test d' 9 1 = Inr False" .
  from q [THEN conjunct2, THEN spec, of 9]
  obtain d'' where d'': "set_dws d' 9 1 = Inr d''" "test d'' 9 1 = Inr True"
    "\<forall>T'. T' \<noteq> 9 \<longrightarrow> test d'' T' 1 = Inr False"
    "\<exists>d3. reset d'' = Inr d3 \<and> (\<forall>T'. test d3 T' 1 = Inr False)" by blast
  from d''(3) have 2: "test d'' 8 1 = Inr False" by simp
  from d'(2) c have 3: "curSeq d' = 65535" by simp
  from d''(4) obtain d3 where "reset d'' = Inr d3" "test d3 9 1 = Inr False" by blast
  with d''(1,2) 2 have "\<exists>d''. set_dws d' 9 1 = Inr d'' \<and> test d'' 9 1 = Inr True \<and>
      test d'' 8 1 = Inr False \<and> (\<exists>d3. reset d'' = Inr d3 \<and> test d3 9 1 = Inr False)"
    by blast
  with d'(1) 3 1 have "do_calls ?d (replicate 65535 Reset) = Inr d' \<and>
         curSeq d' = 65535 \<and> test d' 9 1 = Inr False \<and>
         (\<exists>d''. set_dws d' 9 1 = Inr d'' \<and> test d'' 9 1 = Inr True \<and> test d'' 8 1 = Inr False \<and>
                (\<exists>d3. reset d'' = Inr d3 \<and> test d3 9 1 = Inr False))"
    by (intro conjI)
  then have "\<exists>d'. do_calls ?d (replicate 65535 Reset) = Inr d' \<and>
         curSeq d' = 65535 \<and> test d' 9 1 = Inr False \<and>
         (\<exists>d''. set_dws d' 9 1 = Inr d'' \<and> test d'' 9 1 = Inr True \<and> test d'' 8 1 = Inr False \<and>
                (\<exists>d3. reset d'' = Inr d3 \<and> test d3 9 1 = Inr False))"
    by (rule exI)
  with wf t r show ?thesis by (intro conjI)
qed

section \<open>The executors over a collection\<close>

text \<open>
  Both counting loops return when the number of sources fits the 32-bit counter. The
  sequential loop builds the filter for source \<open>k\<close> from the arguments as \<open>k\<close>
  constructions left them; the collecting loop of \<open>exec_query_par\<close> empties the vector
  of futures from its back.
\<close>

lemma unat_inc32_below:
  assumes "unat i < n" and "n < 2 ^ 32"
  shows "unat (i + 1 :: 32 word) = unat i + 1"
proof -
  from assms have "unat i < 2 ^ 32 - 1" by simp
  then have "i + 1 \<noteq> 0" by (rule inc32_nonzero)
  then show ?thesis by (rule unat_inc32)
qed

lemma args_after_step:
  "args_after mk (Suc k) a = args_after mk k (snd (mk a))"
proof -
  have "((\<lambda>a. snd (mk a)) ^^ Suc k) a = ((\<lambda>a. snd (mk a)) ^^ k) ((\<lambda>a. snd (mk a)) a)"
    by (simp only: funpow_Suc_right comp_apply)
  then show ?thesis by (simp only: args_after_def)
qed

lemma run_source_parts:
  "fst (run_source X mk q c f a i) =
     X q (sources c ! unat i) (scanner_registry_for c (unat i)) (fst (mk a)) f"
  "snd (run_source X mk q c f a i) = snd (mk a)"
  by (simp_all add: run_source_def Let_def split: prod.splits)

lemma exec_query_loop_result:
  assumes "unat i \<le> n" and "n < 2 ^ 32"
  shows "exec_query_loop (run_source X mk q c f) n i out a =
           Some (out @ map (\<lambda>k. X q (sources c ! k) (scanner_registry_for c k)
                                  (fst (mk (args_after mk (k - unat i) a))) f)
                           [unat i..<n])"
  using assms
proof (induction "n - unat i" arbitrary: i out a)
  case 0
  then have "unat i = n" by simp
  then show ?case by (simp add: exec_query_loop.simps)
next
  case (Suc m)
  let ?run = "\<lambda>j a k. X q (sources c ! k) (scanner_registry_for c k)
                        (fst (mk (args_after mk (k - j) a))) f"
  from Suc have lt: "unat i < n" by simp
  with Suc.prems have u: "unat (i + 1) = unat i + 1" by (simp add: unat_inc32_below)
  with Suc.hyps(2) lt have "m = n - unat (i + 1)" "unat (i + 1) \<le> n" by simp_all
  from Suc.hyps(1) [OF this Suc.prems(2)]
  have IH: "exec_query_loop (run_source X mk q c f) n (i + 1)
              (out @ [fst (run_source X mk q c f a i)]) (snd (run_source X mk q c f a i)) =
          Some ((out @ [fst (run_source X mk q c f a i)]) @
                map (?run (unat (i + 1)) (snd (run_source X mk q c f a i))) [unat (i + 1)..<n])" .
  from lt have unfold: "exec_query_loop (run_source X mk q c f) n i out a =
      exec_query_loop (run_source X mk q c f) n (i + 1)
              (out @ [fst (run_source X mk q c f a i)]) (snd (run_source X mk q c f a i))"
    by (subst exec_query_loop.simps) simp
  have tail: "map (?run (unat (i + 1)) (snd (run_source X mk q c f a i))) [unat (i + 1)..<n] =
              map (?run (unat i) a) [unat i + 1..<n]"
  proof (rule map_cong)
    show "[unat (i + 1)..<n] = [unat i + 1..<n]" by (simp add: u)
  next
    fix k assume "k \<in> set [unat i + 1..<n]"
    then have "k - unat i = Suc (k - unat (i + 1))" by (auto simp: u)
    then show "?run (unat (i + 1)) (snd (run_source X mk q c f a i)) k = ?run (unat i) a k"
      by (simp add: run_source_parts args_after_step)
  qed
  have head: "fst (run_source X mk q c f a i) = ?run (unat i) a (unat i)"
    by (simp add: run_source_parts args_after_def)
  from lt have "[unat i..<n] = unat i # [unat i + 1..<n]" by (simp add: upt_conv_Cons)
  with unfold IH tail head show ?case by simp
qed




lemma exec_query_result:
  assumes "length (sources c) < 2 ^ 32"
  shows "exec_query X mk q c f args =
           Some (map (\<lambda>k. X q (sources c ! k) (scanner_registry_for c k)
                            (fst (mk (args_after mk k args))) f)
                     [0..<length (sources c)])"
  using exec_query_loop_result [of 0 "length (sources c)" X mk q c f "[]" args] assms
  by (simp add: exec_query_def)



text \<open>
  C8. The claim is that the sequential executor builds, for every source in source
  order, a fresh filter from the given constructor arguments and runs the
  single-source query on it. The loop forwards the same arguments in every iteration:
  with an argument that the constructor moves from (a vector handed over as an rvalue),
  the first filter is built from the given arguments and the second from what the first
  construction left, so the second element of the result is not the run on a filter made
  from the given arguments.
\<close>

theorem exec_query_moved_from_arguments:
  "exec_query (\<lambda>q s r flt df. (q, s, r) # flt) (\<lambda>a. (a, [])) (7 :: nat)
      \<lparr>sources = [10, 20 :: nat], scanner_registry_for = (\<lambda>i. i * 2)\<rparr> (None :: unit option)
      [(0 :: nat, 0 :: nat, 0 :: nat)]
    = Some [[(7, 10, 0), (0, 0, 0)], [(7, 20, 2)]] \<and>
   (\<lambda>q s r flt (df :: unit option). (q, s, r) # flt) (7 :: nat) (20 :: nat) (2 :: nat)
      (fst ((\<lambda>a. (a, [])) [(0 :: nat, 0 :: nat, 0 :: nat)])) None
    = [(7, 20, 2), (0, 0, 0)]"
  by (simp add: exec_query_def Let_def exec_query_loop.simps run_source_def)

text \<open>
  C9. With no source both executors return the empty sequence and \<open>exec_query_par\<close>
  launches no task; with one source \<open>exec_query_par\<close> launches no task either and
  returns the one filter of the single-source run, as the sequential executor does.
\<close>

theorem degenerate_fan_out:
  "(sources c = [] \<longrightarrow>
      exec_query exec_query_source make_filter q c f args = Some [] \<and>
      exec_query_par exec_query_source make_filter q c f args sched = Some ([], 0)) \<and>
   (length (sources c) = 1 \<longrightarrow>
      exec_query_par exec_query_source make_filter q c f args sched =
        Some ([exec_query_source q (sources c ! 0) (scanner_registry_for c 0)
                 (fst (make_filter args)) f], 0) \<and>
      exec_query exec_query_source make_filter q c f args =
        Some ([exec_query_source q (sources c ! 0) (scanner_registry_for c 0)
                 (fst (make_filter args)) f]))"
proof (intro conjI impI)
  assume "sources c = []"
  then show "exec_query exec_query_source make_filter q c f args = Some []"
    by (simp add: exec_query_def exec_query_loop.simps)
  from \<open>sources c = []\<close>
  show "exec_query_par exec_query_source make_filter q c f args sched = Some ([], 0)"
    by (simp add: exec_query_par_def)
next
  assume 1: "length (sources c) = 1"
  then show "exec_query_par exec_query_source make_filter q c f args sched =
        Some ([exec_query_source q (sources c ! 0) (scanner_registry_for c 0)
                 (fst (make_filter args)) f], 0)"
    by (simp add: exec_query_par_def run_source_parts)
  from 1 have "length (sources c) < 2 ^ 32" by simp
  from exec_query_result [OF this, where X = exec_query_source and mk = make_filter
         and q = q and f = f and args = args] 1
  show "exec_query exec_query_source make_filter q c f args =
        Some ([exec_query_source q (sources c ! 0) (scanner_registry_for c 0)
                 (fst (make_filter args)) f])"
    by (simp add: args_after_def)
qed

theorem degenerate_fan_out_witness:
  "exec_query (\<lambda>q s r flt df. (q, s, r) # flt) (\<lambda>a. (a, [])) (7 :: nat)
      \<lparr>sources = ([] :: nat list), scanner_registry_for = (\<lambda>i. i * 2)\<rparr> (None :: unit option)
      [(0 :: nat, 0 :: nat, 0 :: nat)] = Some [] \<and>
   exec_query_par (\<lambda>q s r flt df. (q, s, r) # flt) (\<lambda>a. (a, [])) (7 :: nat)
      \<lparr>sources = ([] :: nat list), scanner_registry_for = (\<lambda>i. i * 2)\<rparr> (None :: unit option)
      [(0 :: nat, 0 :: nat, 0 :: nat)] [] = Some ([], 0) \<and>
   exec_query_par (\<lambda>q s r flt df. (q, s, r) # flt) (\<lambda>a. (a, [])) (7 :: nat)
      \<lparr>sources = [10 :: nat], scanner_registry_for = (\<lambda>i. i * 2 + 1)\<rparr> (None :: unit option)
      [(0 :: nat, 0 :: nat, 0 :: nat)] [0] = Some ([[(7, 10, 1), (0, 0, 0)]], 0) \<and>
   exec_query (\<lambda>q s r flt df. (q, s, r) # flt) (\<lambda>a. (a, [])) (7 :: nat)
      \<lparr>sources = [10 :: nat], scanner_registry_for = (\<lambda>i. i * 2 + 1)\<rparr> (None :: unit option)
      [(0 :: nat, 0 :: nat, 0 :: nat)] = Some [[(7, 10, 1), (0, 0, 0)]]"
  using degenerate_fan_out [where c = "\<lparr>sources = ([] :: nat list), scanner_registry_for = (\<lambda>i. i * 2)\<rparr>"
          and exec_query_source = "\<lambda>(q :: nat) (s :: nat) (r :: nat) flt (df :: unit option). (q, s, r) # flt"
          and make_filter = "\<lambda>a :: (nat \<times> nat \<times> nat) list. (a, [])" and q = 7 and f = None
          and args = "[(0, 0, 0)]" and sched = "[]"]
        degenerate_fan_out [where c = "\<lparr>sources = [10 :: nat], scanner_registry_for = (\<lambda>i. i * 2 + 1)\<rparr>"
          and exec_query_source = "\<lambda>(q :: nat) (s :: nat) (r :: nat) flt (df :: unit option). (q, s, r) # flt"
          and make_filter = "\<lambda>a :: (nat \<times> nat \<times> nat) list. (a, [])" and q = 7 and f = None
          and args = "[(0, 0, 0)]" and sched = "[0]"]
  by simp



text \<open>
  C1. The claim is that for two or more sources both executors return the same sequence,
  element \<open>i\<close> being the run on source \<open>i\<close>. On two sources whose runs differ, with
  arguments that every construction copies, the sequential executor returns the runs on
  source 0 and source 1 in this order, and \<open>exec_query_par\<close> returns them the other way
  round, in whichever order its two tasks construct.
\<close>

theorem exec_query_par_order_differs:
  "exec_query (\<lambda>q s r flt df. (q, s, r) # flt) (\<lambda>a. ([a], a)) (7 :: nat)
      \<lparr>sources = [10, 20 :: nat], scanner_registry_for = (\<lambda>i. i * 2)\<rparr> (None :: unit option)
      (0 :: nat, 0 :: nat, 0 :: nat)
    = Some [[(7, 10, 0), (0, 0, 0)], [(7, 20, 2), (0, 0, 0)]] \<and>
   exec_query_par (\<lambda>q s r flt df. (q, s, r) # flt) (\<lambda>a. ([a], a)) (7 :: nat)
      \<lparr>sources = [10, 20 :: nat], scanner_registry_for = (\<lambda>i. i * 2)\<rparr> (None :: unit option)
      (0 :: nat, 0 :: nat, 0 :: nat) [0, 1]
    = Some ([[(7, 20, 2), (0, 0, 0)], [(7, 10, 0), (0, 0, 0)]], 2) \<and>
   exec_query_par (\<lambda>q s r flt df. (q, s, r) # flt) (\<lambda>a. ([a], a)) (7 :: nat)
      \<lparr>sources = [10, 20 :: nat], scanner_registry_for = (\<lambda>i. i * 2)\<rparr> (None :: unit option)
      (0 :: nat, 0 :: nat, 0 :: nat) [1, 0]
    = Some ([[(7, 20, 2), (0, 0, 0)], [(7, 10, 0), (0, 0, 0)]], 2)"
  by (simp add: exec_query_def exec_query_par_def Let_def exec_query_loop.simps
        spawn_loop.simps collect_loop.simps run_source_def run_task_def args_seen_def
        args_after_def)

end
